theory Spec2Isabelle
  imports
    Complex_Main
    "HOL-Library.Sublist"
    "HOL-Library.Char_ord"
    "HOL-Library.List_Lexorder"
    "HOL-Library.AList"
    "HOL-Library.Multiset"
begin

section \<open>Strings as Python has them\<close>

text \<open>
  A Python \<open>str\<close> is modelled as a \<^typ>\<open>string\<close>, the list of the bytes of its UTF-8
  encoding. UTF-8 is self-synchronising and orders texts as their code points do, so
  searching, slicing at the indices a search returned, concatenating and comparing agree
  with what Python does on code points.
\<close>

text \<open>
  \<^verbatim>\<open>content.find(sub)\<close>: the lowest index at which \<open>sub\<close> occurs in \<open>content\<close>,
  \<open>-1\<close> when it occurs nowhere. The empty string occurs at index 0.
\<close>

fun find_str :: "'a list \<Rightarrow> 'a list \<Rightarrow> int" where
  "find_str [] sub = (if sub = [] then 0 else - 1)"
| "find_str (c # cs) sub =
     (if prefix sub (c # cs) then 0
      else (let r = find_str cs sub in if r = - 1 then - 1 else r + 1))"

text \<open>
  Python slicing \<^verbatim>\<open>s[a:b]\<close> on integer bounds: a negative bound counts from the end,
  every bound is clamped to \<open>0..len(s)\<close>, and an empty range gives the empty string.
  \<^verbatim>\<open>s[:b]\<close> is \<open>slice s 0 b\<close> and \<^verbatim>\<open>s[a:]\<close> is \<open>slice_from s a\<close>.
\<close>

definition clamp_index :: "'a list \<Rightarrow> int \<Rightarrow> nat" where
  "clamp_index s i =
     (let n = int (length s)
      in if i < 0 then nat (max 0 (i + n)) else nat (min i n))"

definition slice :: "'a list \<Rightarrow> int \<Rightarrow> int \<Rightarrow> 'a list" where
  "slice s a b =
     (let lo = clamp_index s a; hi = clamp_index s b
      in take (hi - lo) (drop lo s))"

definition slice_to :: "'a list \<Rightarrow> int \<Rightarrow> 'a list" where
  "slice_to s b = take (clamp_index s b) s"

definition slice_from :: "'a list \<Rightarrow> int \<Rightarrow> 'a list" where
  "slice_from s a = drop (clamp_index s a) s"

text \<open>\<^verbatim>\<open>sep.join(parts)\<close>.\<close>

fun join :: "'a list \<Rightarrow> 'a list list \<Rightarrow> 'a list" where
  "join sep [] = []"
| "join sep [x] = x"
| "join sep (x # y # ys) = x @ sep @ join sep (y # ys)"

text \<open>
  \<^verbatim>\<open>s.lower()\<close> on the ASCII letters; every other byte is left as it is (the Unicode
  case tables of Python are not modelled).
\<close>

definition lower_char :: "char \<Rightarrow> char" where
  "lower_char c =
     (case map_of (zip ''ABCDEFGHIJKLMNOPQRSTUVWXYZ'' ''abcdefghijklmnopqrstuvwxyz'') c of
        Some l \<Rightarrow> l
      | None \<Rightarrow> c)"

definition lower :: "string \<Rightarrow> string" where
  "lower s = map lower_char s"

section \<open>Paths and the file system\<close>

text \<open>
  A \<open>pathlib.Path\<close> is the list of its components. \<open>Path.name\<close> is the last component
  (empty for the empty path), \<open>p / n\<close> appends a component, \<open>str\<close> of a relative path
  joins the components with a slash and is a single dot for the empty path.
\<close>

type_synonym path = "string list"

definition path_name :: "path \<Rightarrow> string" where
  "path_name p = (if p = [] then [] else last p)"

definition path_child :: "path \<Rightarrow> string \<Rightarrow> path" where
  "path_child p n = p @ [n]"

definition path_str :: "path \<Rightarrow> string" where
  "path_str p = (if p = [] then ''.'' else join ''/'' p)"

text \<open>
  \<^verbatim>\<open>name.rfind('.')\<close>: the highest index of a dot, \<open>-1\<close> when there is none.
\<close>

fun rfind_dot :: "string \<Rightarrow> int" where
  "rfind_dot [] = - 1"
| "rfind_dot (c # cs) =
     (let r = rfind_dot cs
      in if r \<noteq> - 1 then r + 1 else if c = CHR ''.'' then 0 else - 1)"

text \<open>
  \<open>Path.suffix\<close> as pathlib computes it: with \<open>i\<close> the index of the last dot of the
  name, the suffix is \<^verbatim>\<open>name[i:]\<close> when \<open>0 < i < len(name) - 1\<close> and the empty string
  otherwise. A leading dot and a trailing dot start no suffix.
\<close>

definition path_suffix :: "path \<Rightarrow> string" where
  "path_suffix p =
     (let name = path_name p; i = rfind_dot name
      in if 0 < i \<and> i < int (length name) - 1 then slice_from name i else [])"

datatype error = FileNotFoundError | IsADirectoryError | NotADirectoryError | ValueError

text \<open>
  \<^verbatim>\<open>p.relative_to(base)\<close> raises \<open>ValueError\<close> unless \<open>base\<close> is an ancestor of \<open>p\<close> or
  \<open>p\<close> itself.
\<close>

definition relative_to :: "path \<Rightarrow> path \<Rightarrow> error + path" where
  "relative_to p base =
     (if prefix base p then Inr (drop (length base) p) else Inl ValueError)"

text \<open>
  The file system is the collaborator behind \<open>exists\<close>, \<open>read_text\<close>, \<open>write_text\<close>,
  \<open>iterdir\<close> and \<open>is_file\<close>: a table from paths to nodes, a file holding the text that
  \<open>read_text\<close> returns and \<open>write_text\<close> stores. \<open>iterdir\<close> lists the children of a
  directory in the table's order, which stands for the order of the operating system.
\<close>

datatype node = File string | Dir

type_synonym filesystem = "(path \<times> node) list"

definition exists :: "filesystem \<Rightarrow> path \<Rightarrow> bool" where
  "exists fs p = (map_of fs p \<noteq> None)"

definition is_file :: "filesystem \<Rightarrow> path \<Rightarrow> bool" where
  "is_file fs p = (case map_of fs p of Some (File _) \<Rightarrow> True | _ \<Rightarrow> False)"

definition read_text :: "filesystem \<Rightarrow> path \<Rightarrow> error + string" where
  "read_text fs p =
     (case map_of fs p of
        None \<Rightarrow> Inl FileNotFoundError
      | Some Dir \<Rightarrow> Inl IsADirectoryError
      | Some (File content) \<Rightarrow> Inr content)"

definition write_text :: "filesystem \<Rightarrow> path \<Rightarrow> string \<Rightarrow> error + filesystem" where
  "write_text fs p content =
     (case map_of fs p of
        Some Dir \<Rightarrow> Inl IsADirectoryError
      | _ \<Rightarrow> Inr (AList.update p (File content) fs))"

definition iterdir :: "filesystem \<Rightarrow> path \<Rightarrow> error + path list" where
  "iterdir fs d =
     (case map_of fs d of
        None \<Rightarrow> Inl FileNotFoundError
      | Some (File _) \<Rightarrow> Inl NotADirectoryError
      | Some Dir \<Rightarrow> Inr (filter (\<lambda>p. p \<noteq> [] \<and> butlast p = d) (map fst fs)))"

section \<open>The table generator\<close>

text \<open>
  The values of \<open>config.yml\<close>. A key that \<open>__init__\<close> reads with \<open>config[...]\<close> is a
  plain field; a key read with \<open>config.get(..., default)\<close> is \<open>None\<close> when the file has
  no such key. A header or footer key may hold YAML's null, which is Python's \<open>None\<close>:
  that is the inner \<open>None\<close>.
\<close>

record config =
  cfg_wallpapers_dir :: path
  cfg_exclude_dirs :: "string list option"
  cfg_allowed_extensions :: "string list"
  cfg_opening_marker :: string
  cfg_closing_marker :: string
  cfg_columns :: int
  cfg_header :: "string option option"
  cfg_footer :: "string option option"

text \<open>The attributes of a \<open>TableGenerator\<close>, as \<open>__init__\<close> sets them.\<close>

record generator =
  wallpapers_dir :: path
  exclude_dirs :: "string set"
  allowed_extensions :: "string list"
  opening_marker :: string
  closing_marker :: string
  columns :: int
  header_text :: "string option"
  footer_text :: "string option"

definition init :: "config \<Rightarrow> generator" where
  "init c =
     \<lparr> wallpapers_dir = cfg_wallpapers_dir c,
       exclude_dirs = (case cfg_exclude_dirs c of None \<Rightarrow> {} | Some ds \<Rightarrow> set ds),
       allowed_extensions = map lower (cfg_allowed_extensions c),
       opening_marker = cfg_opening_marker c,
       closing_marker = cfg_closing_marker c,
       columns = cfg_columns c,
       header_text = (case cfg_header c of None \<Rightarrow> Some [] | Some h \<Rightarrow> h),
       footer_text = (case cfg_footer c of None \<Rightarrow> Some [] | Some f \<Rightarrow> f) \<rparr>"

definition README_NAME :: string where
  "README_NAME = ''README.md''"

subsection \<open>Locating the markers\<close>

text \<open>
  The body of \<open>_find_readme_with_markers\<close> after the file is read: both markers are
  searched from the start of the text, independently of each other.
\<close>

definition locate :: "generator \<Rightarrow> string \<Rightarrow> bool \<times> string \<times> string \<times> string" where
  "locate g content =
     (let start_index = find_str content (opening_marker g);
          end_index = find_str content (closing_marker g)
      in if start_index = - 1 \<or> end_index = - 1 then (False, [], [], [])
         else (let end_index = end_index + int (length (closing_marker g));
                   before_text = slice content 0 start_index;
                   generated_block = slice content start_index end_index;
                   after_text = slice_from content end_index
               in (True, before_text, generated_block, after_text)))"

definition find_readme_with_markers ::
  "generator \<Rightarrow> filesystem \<Rightarrow> path \<Rightarrow> error + (bool \<times> string \<times> string \<times> string)" where
  "find_readme_with_markers g fs readme_path =
     (case read_text fs readme_path of
        Inl e \<Rightarrow> Inl e
      | Inr content \<Rightarrow> Inr (locate g content))"

subsection \<open>Enumerating the images\<close>

text \<open>
  \<open>_find_image_files\<close>: the entries of the directory that are files and whose suffix,
  lower-cased, is in the list of allowed extensions, sorted by name. Python's
  \<open>list.sort\<close> is stable, as \<^const>\<open>sort_key\<close> is.
\<close>

definition find_image_files :: "generator \<Rightarrow> filesystem \<Rightarrow> path \<Rightarrow> error + path list" where
  "find_image_files g fs directory =
     (case iterdir fs directory of
        Inl e \<Rightarrow> Inl e
      | Inr entries \<Rightarrow>
          Inr (sort_key path_name
                 (filter (\<lambda>entry. is_file fs entry
                            \<and> lower (path_suffix entry) \<in> set (allowed_extensions g))
                    entries)))"

subsection \<open>Building the table\<close>

definition placeholder :: string where
  "placeholder =
     [CHR ''_'', CHR ''('', CHR 0xD0, CHR 0x92, CHR '' '', CHR 0xD1, CHR 0x8D,
      CHR 0xD1, CHR 0x82, CHR 0xD0, CHR 0xBE, CHR 0xD0, CHR 0xB9, CHR '' '', CHR 0xD0,
      CHR 0xB4, CHR 0xD0, CHR 0xB8, CHR 0xD1, CHR 0x80, CHR 0xD0, CHR 0xB5, CHR 0xD0,
      CHR 0xBA, CHR 0xD1, CHR 0x82, CHR 0xD0, CHR 0xBE, CHR 0xD1, CHR 0x80, CHR 0xD0,
      CHR 0xB8, CHR 0xD0, CHR 0xB8, CHR '' '', CHR 0xD0, CHR 0xBD, CHR 0xD0, CHR 0xB5,
      CHR 0xD1, CHR 0x82, CHR '' '', CHR 0xD0, CHR 0xB8, CHR 0xD0, CHR 0xB7, CHR 0xD0,
      CHR 0xBE, CHR 0xD0, CHR 0xB1, CHR 0xD1, CHR 0x80, CHR 0xD0, CHR 0xB0, CHR 0xD0,
      CHR 0xB6, CHR 0xD0, CHR 0xB5, CHR 0xD0, CHR 0xBD, CHR 0xD0, CHR 0xB8, CHR 0xD0,
      CHR 0xB9, CHR '')'', CHR ''_'']"

text \<open>The cell of one image: \<^verbatim>\<open>[![preview](rel_path)](rel_path)\<close>.\<close>

definition cell :: "string \<Rightarrow> path \<Rightarrow> string" where
  "cell base_path image_path =
     (let rel_path = base_path @ ''/'' @ path_name image_path
      in ''[![preview]('' @ rel_path @ '')]('' @ rel_path @ '')'')"

text \<open>A finished row: \<^verbatim>\<open>"| " + " | ".join(current_row) + " |"\<close>.\<close>

definition row_line :: "string list \<Rightarrow> string" where
  "row_line current_row = ''| '' @ join '' | '' current_row @ '' |''"

text \<open>
  The \<open>for\<close> loop of \<open>_generate_table\<close>, on the pair of \<open>rows\<close> and \<open>current_row\<close>.
\<close>

fun table_loop ::
  "int \<Rightarrow> string \<Rightarrow> path list \<Rightarrow> string list \<times> string list \<Rightarrow> string list \<times> string list" where
  "table_loop cols base_path [] (rows, current_row) = (rows, current_row)"
| "table_loop cols base_path (image_path # rest) (rows, current_row) =
     (let current_row = current_row @ [cell base_path image_path]
      in if int (length current_row) = cols
         then table_loop cols base_path rest (rows @ [row_line current_row], [])
         else table_loop cols base_path rest (rows, current_row))"

text \<open>The \<open>while\<close> loop that pads the last, incomplete row.\<close>

function pad_row :: "int \<Rightarrow> string list \<Rightarrow> string list" where
  "pad_row cols current_row =
     (if int (length current_row) < cols then pad_row cols (current_row @ ['' ''])
      else current_row)"
  by pat_completeness auto
termination
  by (relation "measure (\<lambda>(cols, current_row). nat (cols - int (length current_row)))") auto

text \<open>The list \<open>rows\<close> when the header is built.\<close>

definition table_rows :: "int \<Rightarrow> string \<Rightarrow> path list \<Rightarrow> string list" where
  "table_rows cols base_path image_files =
     (case table_loop cols base_path image_files ([], []) of
        (rows, current_row) \<Rightarrow>
          if current_row \<noteq> [] then rows @ [row_line (pad_row cols current_row)] else rows)"

definition generate_table :: "generator \<Rightarrow> path list \<Rightarrow> string \<Rightarrow> string" where
  "generate_table g image_files base_path =
     (if image_files = [] then placeholder
      else (let rows = table_rows (columns g) base_path image_files;
                hidden_header = row_line (replicate (nat (columns g)) []);
                header_separator = row_line (replicate (nat (columns g)) '':---:'')
            in hidden_header @ [CHR ''\<newline>''] @ header_separator @ [CHR ''\<newline>'']
               @ join [CHR ''\<newline>''] rows))"

subsection \<open>Assembling the block and processing a directory\<close>

text \<open>
  \<open>_build_generated_block\<close>: the parts that are not \<open>None\<close>, joined by newlines.
\<close>

definition build_generated_block :: "generator \<Rightarrow> string \<Rightarrow> string" where
  "build_generated_block g table =
     (let parts = [Some (opening_marker g), header_text g, Some [], Some table, Some [],
                   footer_text g, Some (closing_marker g)]
      in join [CHR ''\<newline>''] (map the (filter (\<lambda>part. part \<noteq> None) parts)))"

text \<open>
  \<open>process_directory\<close> returns the file system it leaves behind, or the exception that
  a collaborator raised.
\<close>

definition process_directory :: "generator \<Rightarrow> filesystem \<Rightarrow> path \<Rightarrow> error + filesystem" where
  "process_directory g fs directory =
     (let readme_path = path_child directory README_NAME
      in if \<not> exists fs readme_path then Inr fs
         else (case find_readme_with_markers g fs readme_path of
                 Inl e \<Rightarrow> Inl e
               | Inr (found, before_text, old_block, after_text) \<Rightarrow>
                   if \<not> found then Inr fs
                   else (case find_image_files g fs directory of
                           Inl e \<Rightarrow> Inl e
                         | Inr image_files \<Rightarrow>
                             (case relative_to directory (wallpapers_dir g) of
                                Inl e \<Rightarrow> Inl e
                              | Inr relative_path \<Rightarrow>
                                  (let base_path = ''/'' @ path_name (wallpapers_dir g) @ ''/''
                                                   @ path_str relative_path;
                                       table = generate_table g image_files base_path;
                                       new_generated_block = build_generated_block g table;
                                       new_content = before_text @ new_generated_block @ after_text
                                   in write_text fs readme_path new_content)))))"

section \<open>Occurrences of a marker\<close>

text \<open>
  What the specification means by a marker occurring in a text, stated without the
  search: \<open>sub\<close> occurs at index \<open>i\<close> when the text from \<open>i\<close> on starts with \<open>sub\<close>, and
  its first occurrence is the least such index.
\<close>

definition occurs_at :: "'a list \<Rightarrow> 'a list \<Rightarrow> nat \<Rightarrow> bool" where
  "occurs_at sub text i \<longleftrightarrow> i \<le> length text \<and> prefix sub (drop i text)"

definition first_occurrence :: "'a list \<Rightarrow> 'a list \<Rightarrow> nat \<Rightarrow> bool" where
  "first_occurrence sub text i \<longleftrightarrow> occurs_at sub text i \<and> (\<forall>j<i. \<not> occurs_at sub text j)"

section \<open>The table as the specification words it\<close>

text \<open>
  The three definitions of this section follow the words of the specification, not the
  code: the theorems on the table builder compare them with \<open>_generate_table\<close>.
  \<open>grid C pad cells\<close> packs the cells row-major into \<open>\<lceil>L / C\<rceil>\<close> rows of \<open>C\<close> cells, the
  last one filled on the right with \<open>pad\<close>; \<open>spec_cell\<close> is the cell
  \<^verbatim>\<open>[![preview](P/N)](P/N)\<close>; \<open>spec_row\<close> writes a pipe, then every cell between two
  single spaces and followed by a pipe.
\<close>

definition grid :: "nat \<Rightarrow> 'a \<Rightarrow> 'a list \<Rightarrow> 'a list list" where
  "grid C pad cells =
     (let R = (length cells + C - 1) div C;
          padded = cells @ replicate (R * C - length cells) pad
      in map (\<lambda>r. take C (drop (r * C) padded)) [0..<R])"

definition spec_cell :: "string \<Rightarrow> string \<Rightarrow> string" where
  "spec_cell P N = ''[![preview]('' @ P @ ''/'' @ N @ '')]('' @ P @ ''/'' @ N @ '')''"

definition spec_row :: "string list \<Rightarrow> string" where
  "spec_row cells = ''|'' @ concat (map (\<lambda>c. '' '' @ c @ '' |'') cells)"

section \<open>A sample configuration\<close>

text \<open>A configuration with short markers, on which the theorems below are run.\<close>

definition example_config :: config where
  "example_config =
     \<lparr> cfg_wallpapers_dir = [''wallpapers''], cfg_exclude_dirs = None,
       cfg_allowed_extensions = [''.jpg'', ''.png''],
       cfg_opening_marker = ''[['', cfg_closing_marker = '']]'',
       cfg_columns = 2, cfg_header = None, cfg_footer = None \<rparr>"

text \<open>A directory of the wallpapers, with a document, images and other entries.\<close>

definition nature_dir :: path where
  "nature_dir = [''wallpapers'', ''nature'']"

definition nature_fs :: filesystem where
  "nature_fs =
     [([''wallpapers''], Dir),
      (nature_dir, Dir),
      (path_child nature_dir ''README.md'', File ''intro [[old]] outro''),
      (path_child nature_dir ''b.png'', File []),
      (path_child nature_dir ''notes.txt'', File []),
      (path_child nature_dir ''a.jpg'', File []),
      (path_child nature_dir ''d.png'', Dir),
      (path_child nature_dir ''c.JPG'', File []),
      (path_child [''wallpapers'', ''city''] ''e.jpg'', File [])]"


definition example_generator :: generator where
  "example_generator = init example_config"

text \<open>The images of that directory, in the order of their names.\<close>

definition nature_images :: "path list" where
  "nature_images = [path_child nature_dir ''a.jpg'', path_child nature_dir ''b.png'',
                    path_child nature_dir ''c.JPG'']"



text \<open>The document of \<open>nature_dir\<close> and the file system after one run.\<close>

definition nature_document_once :: string where
  "nature_document_once =
     ''intro [[\<newline>\<newline>\<newline>|  |  |\<newline>| :---: | :---: |\<newline>| [![preview](/wallpapers/nature/a.jpg)](/wallpapers/nature/a.jpg) | [![preview](/wallpapers/nature/b.png)](/wallpapers/nature/b.png) |\<newline>| [![preview](/wallpapers/nature/c.JPG)](/wallpapers/nature/c.JPG) |   |\<newline>\<newline>\<newline>]] outro''"

definition nature_fs_once :: filesystem where
  "nature_fs_once =
     [([''wallpapers''], Dir),
      (nature_dir, Dir),
      (path_child nature_dir ''README.md'', File nature_document_once),
      (path_child nature_dir ''b.png'', File []),
      (path_child nature_dir ''notes.txt'', File []),
      (path_child nature_dir ''a.jpg'', File []),
      (path_child nature_dir ''d.png'', Dir),
      (path_child nature_dir ''c.JPG'', File []),
      (path_child [''wallpapers'', ''city''] ''e.jpg'', File [])]"

text \<open>
  A document that mentions the closing marker before its block, in a directory without
  images, and what one run and two runs leave; \<open>empty_block\<close> is the block generated for
  such a directory.
\<close>

definition empty_block :: string where
  "empty_block = ''[[\<newline>\<newline>\<newline>'' @ placeholder @ ''\<newline>\<newline>\<newline>]]''"

definition stray_fs :: filesystem where
  "stray_fs =
     [(nature_dir, Dir),
      (path_child nature_dir ''README.md'', File '']] [[old]]'')]"

definition stray_fs_once :: filesystem where
  "stray_fs_once =
     [(nature_dir, Dir),
      (path_child nature_dir ''README.md'', File ('']] '' @ empty_block @ '' [[old]]''))]"

definition stray_fs_twice :: filesystem where
  "stray_fs_twice =
     [(nature_dir, Dir),
      (path_child nature_dir ''README.md'',
       File ('']] '' @ empty_block @ '' '' @ empty_block @ '' [[old]]''))]"

section \<open>Searching and slicing\<close>

lemma find_str_lower: "- 1 \<le> find_str t s"
  by (induction t) (auto simp: Let_def)

lemma occurs_at_Cons_Suc: "occurs_at s (c # cs) (Suc i) = occurs_at s cs i"
  by (simp add: occurs_at_def)

lemma occurs_at_0: "occurs_at s t 0 = prefix s t"
  by (simp add: occurs_at_def)

lemma find_str_none: "find_str t s = - 1 \<longleftrightarrow> (\<forall>i. \<not> occurs_at s t i)"
proof (induction t)
  case Nil
  show ?case by (auto simp: occurs_at_def)
next
  case (Cons c cs)
  have l: "- 1 \<le> find_str cs s" by (rule find_str_lower)
  show ?case
  proof (cases "prefix s (c # cs)")
    case True
    then have "occurs_at s (c # cs) 0" by (simp add: occurs_at_0)
    with True show ?thesis by auto
  next
    case False
    have "(\<forall>i. \<not> occurs_at s (c # cs) i) \<longleftrightarrow> (\<forall>i. \<not> occurs_at s cs i)"
    proof
      assume a: "\<forall>i. \<not> occurs_at s (c # cs) i"
      show "\<forall>i. \<not> occurs_at s cs i"
      proof
        fix i from a have "\<not> occurs_at s (c # cs) (Suc i)" by blast
        then show "\<not> occurs_at s cs i" by (simp add: occurs_at_Cons_Suc)
      qed
    next
      assume a: "\<forall>i. \<not> occurs_at s cs i"
      show "\<forall>i. \<not> occurs_at s (c # cs) i"
      proof
        fix i show "\<not> occurs_at s (c # cs) i"
          using a False by (cases i) (simp_all add: occurs_at_Cons_Suc occurs_at_0)
      qed
    qed
    with False Cons l show ?thesis by (auto simp: Let_def)
  qed
qed

lemma find_str_first: "find_str t s = int i \<longleftrightarrow> first_occurrence s t i"
proof (induction t arbitrary: i)
  case Nil
  show ?case by (auto simp: first_occurrence_def occurs_at_def)
next
  case (Cons c cs)
  show ?case
  proof (cases "prefix s (c # cs)")
    case True
    then have o: "occurs_at s (c # cs) 0" by (simp add: occurs_at_0)
    have "first_occurrence s (c # cs) i \<longleftrightarrow> i = 0"
      using o by (auto simp: first_occurrence_def)
    with True show ?thesis by auto
  next
    case False
    then have no: "\<not> occurs_at s (c # cs) 0" by (simp add: occurs_at_0)
    show ?thesis
    proof (cases i)
      case 0
      have "find_str (c # cs) s \<noteq> 0"
        using False find_str_lower[of cs s] by (auto simp: Let_def)
      with 0 no show ?thesis by (simp add: first_occurrence_def)
    next
      case (Suc k)
      have "first_occurrence s (c # cs) (Suc k) \<longleftrightarrow> first_occurrence s cs k"
      proof -
        have "(\<forall>j<Suc k. \<not> occurs_at s (c # cs) j) \<longleftrightarrow> (\<forall>j<k. \<not> occurs_at s cs j)"
          using no by (auto simp: less_Suc_eq_0_disj occurs_at_Cons_Suc)
        then show ?thesis by (simp add: first_occurrence_def occurs_at_Cons_Suc)
      qed
      moreover have "find_str (c # cs) s = int (Suc k) \<longleftrightarrow> find_str cs s = int k"
        using False by (auto simp: Let_def)
      ultimately show ?thesis using Suc Cons.IH[of k] by simp
    qed
  qed
qed

lemma occurs_at_sublist: "(\<exists>i. occurs_at s t i) \<longleftrightarrow> sublist s t"
proof
  assume "\<exists>i. occurs_at s t i"
  then obtain i zs where "i \<le> length t" "drop i t = s @ zs"
    by (auto simp: occurs_at_def prefix_def)
  then have "t = take i t @ s @ zs" by (metis append_take_drop_id)
  then show "sublist s t" unfolding sublist_def by blast
next
  assume "sublist s t"
  then obtain ps ss where "t = ps @ s @ ss" unfolding sublist_def by blast
  then have "occurs_at s t (length ps)" by (simp add: occurs_at_def)
  then show "\<exists>i. occurs_at s t i" ..
qed

lemma find_str_absent: "find_str t s = - 1 \<longleftrightarrow> \<not> sublist s t"
  by (simp add: find_str_none occurs_at_sublist [symmetric])

lemma find_str_cases:
  obtains (absent) "find_str t s = - 1" "\<not> sublist s t"
  | (found) i where "find_str t s = int i" "first_occurrence s t i"
proof (cases "find_str t s = - 1")
  case True then show ?thesis using absent find_str_absent by blast
next
  case False
  with find_str_lower[of t s] have "0 \<le> find_str t s" by linarith
  then obtain i where "find_str t s = int i" using nonneg_int_cases by blast
  then show ?thesis using found find_str_first by blast
qed



lemma first_occurrence_bound:
  "first_occurrence s t i \<Longrightarrow> i + length s \<le> length t"
  by (auto simp: first_occurrence_def occurs_at_def prefix_def dest!: arg_cong[where f=length])

lemma first_occurrence_unique:
  "first_occurrence s t i \<Longrightarrow> first_occurrence s t j \<Longrightarrow> i = j"
  by (metis first_occurrence_def linorder_neqE_nat)

lemma clamp_index_nat: "clamp_index s (int i) = min i (length s)"
  by (simp add: clamp_index_def Let_def min_def)

lemma clamp_index_0: "clamp_index s 0 = 0"
  by (simp add: clamp_index_def)

lemma locate_absent:
  "\<not> sublist (opening_marker g) doc \<or> \<not> sublist (closing_marker g) doc
   \<Longrightarrow> locate g doc = (False, [], [], [])"
  by (auto simp: locate_def Let_def find_str_absent)

lemma locate_found:
  assumes "first_occurrence (opening_marker g) doc i"
    and "first_occurrence (closing_marker g) doc j"
  shows "locate g doc =
           (True, take i doc,
            take (j + length (closing_marker g) - i) (drop i doc),
            drop (j + length (closing_marker g)) doc)"
proof -
  have fi: "find_str doc (opening_marker g) = int i"
    and fj: "find_str doc (closing_marker g) = int j"
    using assms by (simp_all add: find_str_first)
  have bi: "i \<le> length doc" and bj: "j + length (closing_marker g) \<le> length doc"
    using assms first_occurrence_bound[of "opening_marker g" doc i]
      first_occurrence_bound[of "closing_marker g" doc j] by simp_all
  have e: "int j + int (length (closing_marker g)) = int (j + length (closing_marker g))"
    by simp
  show ?thesis
    unfolding locate_def Let_def fi fj e slice_def slice_from_def
    using bi bj by (simp add: clamp_index_nat clamp_index_0 del: of_nat_add)
qed

lemma locate_cases:
  obtains (absent) "\<not> sublist (opening_marker g) doc \<or> \<not> sublist (closing_marker g) doc"
      "locate g doc = (False, [], [], [])"
  | (found) i j where "first_occurrence (opening_marker g) doc i"
      "first_occurrence (closing_marker g) doc j"
      "sublist (opening_marker g) doc" "sublist (closing_marker g) doc"
      "locate g doc =
           (True, take i doc,
            take (j + length (closing_marker g) - i) (drop i doc),
            drop (j + length (closing_marker g)) doc)"
proof (cases "sublist (opening_marker g) doc \<and> sublist (closing_marker g) doc")
  case False
  then show ?thesis using absent locate_absent by blast
next
  case True
  then obtain i j where "first_occurrence (opening_marker g) doc i"
      "first_occurrence (closing_marker g) doc j"
    by (metis find_str_cases)
  then show ?thesis using found locate_found True by blast
qed

section \<open>The marker locator\<close>

text \<open>
  C1 (as amended). Whenever the locator reports that both markers were found, the three
  parts it returns concatenate to the document again exactly when the first occurrence
  of the closing marker ends at or after the index where the first occurrence of the
  opening marker starts. When the closing marker ends before the opening marker starts,
  the block is empty and the text in between is returned twice.
\<close>

theorem locate_round_trip:
  assumes "locate g doc = (True, before_text, block, after_text)"
  shows "before_text @ block @ after_text = doc \<longleftrightarrow>
         find_str doc (opening_marker g)
           \<le> find_str doc (closing_marker g) + int (length (closing_marker g))"
proof (cases g doc rule: locate_cases)
  case absent
  with assms show ?thesis by simp
next
  case (found i j)
  define e where "e = j + length (closing_marker g)"
  have fi: "find_str doc (opening_marker g) = int i"
    and fj: "find_str doc (closing_marker g) = int j"
    using found by (simp_all add: find_str_first)
  have be: "e \<le> length doc"
    using first_occurrence_bound[OF found(2)] by (simp add: e_def)
  have bi: "i \<le> length doc"
    using first_occurrence_bound[OF found(1)] by simp
  have parts: "before_text = take i doc" "block = take (e - i) (drop i doc)"
      "after_text = drop e doc"
    using assms found(5) by (simp_all add: e_def)
  show ?thesis
  proof (cases "i \<le> e")
    case True
    have "take i doc @ take (e - i) (drop i doc) = take (i + (e - i)) doc"
      by (simp add: take_add)
    with True have "(take i doc @ take (e - i) (drop i doc)) @ drop e doc = doc"
      by simp
    then have "before_text @ block @ after_text = doc"
      by (simp add: parts)
    with True show ?thesis by (simp add: fi fj e_def)
  next
    case False
    have "length (before_text @ block @ after_text) = i + (length doc - e)"
      using False be bi by (simp add: parts)
    with False be have "length (before_text @ block @ after_text) \<noteq> length doc"
      by simp
    then have "before_text @ block @ after_text \<noteq> doc" by blast
    with False show ?thesis by (simp add: fi fj e_def)
  qed
qed

theorem locate_round_trip_witness:
  "locate example_generator ''a[[b]]c'' = (True, ''a'', ''[[b]]'', ''c'')
   \<and> ''a'' @ ''[[b]]'' @ ''c'' = ''a[[b]]c''"
  using locate_round_trip [of example_generator "''a[[b]]c''" "''a''" "''[[b]]''" "''c''"]
  by (simp add: locate_def example_generator_def example_config_def init_def slice_def slice_from_def
      clamp_index_def Let_def)

text \<open>
  The round trip as first claimed, for every document in which both markers are found,
  fails on a document whose closing marker comes first.
\<close>

theorem locate_round_trip_counterexample:
  "locate example_generator '']]x[['' = (True, '']]x'', [], ''x[['')
   \<and> '']]x'' @ [] @ ''x[['' \<noteq> '']]x[[''"
  by (simp add: locate_def example_generator_def example_config_def init_def slice_def slice_from_def
      clamp_index_def Let_def)

text \<open>
  C2 (as amended). If the document is \<open>A + open + M + close + B\<close>, the opening marker
  occurs at no index before the end of \<open>A\<close>, and the closing marker occurs at no index
  before the end of \<open>A + open + M\<close>, then the locator returns \<open>A\<close>, \<open>open + M + close\<close>
  and \<open>B\<close>. That holds in particular when each marker occurs once in the document.
\<close>

theorem locate_span:
  assumes "doc = A @ opening_marker g @ M @ closing_marker g @ B"
    and "\<forall>j < length A. \<not> occurs_at (opening_marker g) doc j"
    and "\<forall>j < length A + length (opening_marker g) + length M.
           \<not> occurs_at (closing_marker g) doc j"
  shows "locate g doc = (True, A, opening_marker g @ M @ closing_marker g, B)"
proof -
  have "first_occurrence (opening_marker g) doc (length A)"
    using assms(1,2) by (simp add: first_occurrence_def occurs_at_def)
  moreover have "first_occurrence (closing_marker g) doc
                   (length A + length (opening_marker g) + length M)"
    using assms(1,3) by (simp add: first_occurrence_def occurs_at_def)
  ultimately show ?thesis
    using assms(1) by (simp add: locate_found)
qed

theorem locate_span_witness:
  "locate example_generator ''a[[b]]c'' = (True, ''a'', ''[[b]]'', ''c'')"
proof -
  have 1: "''a[[b]]c'' = ''a'' @ opening_marker example_generator @ ''b''
             @ closing_marker example_generator @ ''c''"
    by (simp add: example_generator_def example_config_def init_def)
  have 2: "\<forall>j < length ''a''. \<not> occurs_at (opening_marker example_generator) ''a[[b]]c'' j"
    by (simp add: example_generator_def example_config_def init_def occurs_at_def)
  have 3: "\<forall>j < length ''a'' + length (opening_marker example_generator) + length ''b''.
           \<not> occurs_at (closing_marker example_generator) ''a[[b]]c'' j"
    by (simp add: example_generator_def example_config_def init_def occurs_at_def All_less_Suc eval_nat_numeral)
  show ?thesis
    using locate_span [OF 1 2 3] by (simp add: example_generator_def example_config_def init_def)
qed

text \<open>
  Without the condition on what precedes \<open>M\<close> the span is not the one claimed: here the
  markers do not occur in \<open>M\<close>, but the closing marker occurs in \<open>A\<close>.
\<close>

theorem locate_span_counterexample:
  "'']] [[t]]'' = '']] '' @ opening_marker example_generator @ ''t''
                     @ closing_marker example_generator @ []
   \<and> \<not> sublist (opening_marker example_generator) ''t''
   \<and> \<not> sublist (closing_marker example_generator) ''t''
   \<and> locate example_generator '']] [[t]]'' = (True, '']] '', [], '' [[t]]'')
   \<and> locate example_generator '']] [[t]]''
       \<noteq> (True, '']] '', opening_marker example_generator @ ''t''
                  @ closing_marker example_generator, [])"
  by (simp add: locate_def example_generator_def example_config_def init_def slice_def slice_from_def
      clamp_index_def Let_def sublist_code)

text \<open>
  C3. The locator reports not found exactly when one of the two markers does not occur
  in the document; when both occur it reports found, also when the first occurrence of
  the closing marker precedes that of the opening marker.
\<close>

theorem locate_not_found_iff:
  "(fst (locate g doc) = False \<longleftrightarrow>
      \<not> sublist (opening_marker g) doc \<or> \<not> sublist (closing_marker g) doc)
   \<and> (sublist (opening_marker g) doc \<and> sublist (closing_marker g) doc
        \<and> find_str doc (closing_marker g) < find_str doc (opening_marker g)
      \<longrightarrow> fst (locate g doc) = True)"
  by (cases g doc rule: locate_cases) auto

theorem locate_not_found_iff_witness:
  "sublist (opening_marker example_generator) '']]x[[''
   \<and> sublist (closing_marker example_generator) '']]x[[''
   \<and> find_str '']]x[['' (closing_marker example_generator)
       < find_str '']]x[['' (opening_marker example_generator)
   \<and> fst (locate example_generator '']]x[['') = True
   \<and> fst (locate example_generator ''no markers'') = False"
  using locate_not_found_iff [of example_generator "'']]x[[''"]
    locate_not_found_iff [of example_generator "''no markers''"]
  by (simp add: example_generator_def example_config_def init_def sublist_code)

section \<open>Enumerating the images\<close>

lemma allowed_extensions_init:
  "allowed_extensions (init c) = map lower (cfg_allowed_extensions c)"
  by (simp add: init_def)

text \<open>
  C9. The image files of a directory are the entries that are files and whose suffix
  equals an allowed extension up to the case of the letters; they are returned with
  their names unchanged, each as often as the directory lists it, in ascending order of
  their names. The files \<open>b.png\<close>, \<open>a.jpg\<close> and \<open>c.JPG\<close>, with \<open>.jpg\<close> and \<open>.png\<close> allowed,
  come out as \<open>a.jpg\<close>, \<open>b.png\<close>, \<open>c.JPG\<close>.
\<close>

theorem image_enumeration:
  "(iterdir fs d = Inr entries \<longrightarrow>
      (\<exists>files. find_image_files (init c) fs d = Inr files
         \<and> sorted (map path_name files)
         \<and> mset files =
             mset (filter (\<lambda>entry. is_file fs entry
                             \<and> (\<exists>ext \<in> set (cfg_allowed_extensions c).
                                   lower ext = lower (path_suffix entry)))
                     entries)))
   \<and> find_image_files (init example_config) nature_fs nature_dir
       = Inr [path_child nature_dir ''a.jpg'', path_child nature_dir ''b.png'',
              path_child nature_dir ''c.JPG'']"
proof
  show "iterdir fs d = Inr entries \<longrightarrow>
      (\<exists>files. find_image_files (init c) fs d = Inr files
         \<and> sorted (map path_name files)
         \<and> mset files =
             mset (filter (\<lambda>entry. is_file fs entry
                             \<and> (\<exists>ext \<in> set (cfg_allowed_extensions c).
                                   lower ext = lower (path_suffix entry)))
                     entries))"
  proof
    assume it: "iterdir fs d = Inr entries"
    have m: "lower (path_suffix entry) \<in> set (allowed_extensions (init c))
          \<longleftrightarrow> (\<exists>ext \<in> set (cfg_allowed_extensions c). lower ext = lower (path_suffix entry))"
      for entry
      unfolding allowed_extensions_init set_map image_iff by metis
    show "\<exists>files. find_image_files (init c) fs d = Inr files
         \<and> sorted (map path_name files)
         \<and> mset files =
             mset (filter (\<lambda>entry. is_file fs entry
                             \<and> (\<exists>ext \<in> set (cfg_allowed_extensions c).
                                   lower ext = lower (path_suffix entry)))
                     entries)"
      unfolding find_image_files_def it
      by (simp add: m)
  qed
next
  show "find_image_files (init example_config) nature_fs nature_dir
       = Inr [path_child nature_dir ''a.jpg'', path_child nature_dir ''b.png'',
              path_child nature_dir ''c.JPG'']"
    by (simp add: find_image_files_def iterdir_def nature_fs_def nature_dir_def
        path_child_def is_file_def init_def example_config_def lower_def lower_char_def
        path_suffix_def path_name_def slice_from_def clamp_index_def)
qed

theorem image_enumeration_witness:
  "iterdir nature_fs nature_dir
     = Inr [path_child nature_dir ''README.md'', path_child nature_dir ''b.png'',
            path_child nature_dir ''notes.txt'', path_child nature_dir ''a.jpg'',
            path_child nature_dir ''d.png'', path_child nature_dir ''c.JPG'']
   \<and> find_image_files (init example_config) nature_fs nature_dir
       = Inr [path_child nature_dir ''a.jpg'', path_child nature_dir ''b.png'',
              path_child nature_dir ''c.JPG'']
   \<and> sorted [''a.jpg'', ''b.png'', ''c.JPG'']"
proof -
  have h: "iterdir nature_fs nature_dir
     = Inr [path_child nature_dir ''README.md'', path_child nature_dir ''b.png'',
            path_child nature_dir ''notes.txt'', path_child nature_dir ''a.jpg'',
            path_child nature_dir ''d.png'', path_child nature_dir ''c.JPG'']"
    by (simp add: iterdir_def nature_fs_def nature_dir_def path_child_def)
  from image_enumeration [of nature_fs nature_dir _ example_config] h
  obtain files where f: "find_image_files (init example_config) nature_fs nature_dir = Inr files"
    "sorted (map path_name files)" by blast
  from image_enumeration [of nature_fs nature_dir _ example_config]
  have e: "find_image_files (init example_config) nature_fs nature_dir
       = Inr [path_child nature_dir ''a.jpg'', path_child nature_dir ''b.png'',
              path_child nature_dir ''c.JPG'']" by blast
  with f have "sorted (map path_name [path_child nature_dir ''a.jpg'',
     path_child nature_dir ''b.png'', path_child nature_dir ''c.JPG''])" by simp
  then have "sorted [''a.jpg'', ''b.png'', ''c.JPG'']"
    by (simp add: path_name_def path_child_def)
  with h e show ?thesis by blast
qed

lemma rfind_dot_lower: "- 1 \<le> rfind_dot s"
  by (induction s) (auto simp: Let_def)








section \<open>The table builder\<close>


subsection \<open>The loop and the grid\<close>

lemma table_loop_append:
  "table_loop cols base (fs @ gs) st = table_loop cols base gs (table_loop cols base fs st)"
proof (induction fs arbitrary: st)
  case Nil
  show ?case by (cases st) simp
next
  case (Cons f fs)
  show ?case by (cases st) (simp add: Let_def Cons.IH)
qed

lemma pad_row_eq: "pad_row cols cur = cur @ replicate (nat cols - length cur) '' ''"
proof (induction cols cur rule: pad_row.induct)
  case (1 cols cur)
  show ?case
  proof (cases "int (length cur) < cols")
    case True
    then have "nat cols - length cur = Suc (nat cols - Suc (length cur))" by linarith
    with True 1 show ?thesis
      by (subst pad_row.simps) (simp add: replicate_app_Cons_same)
  next
    case False
    then show ?thesis by (subst pad_row.simps) simp
  qed
qed

lemma mult_chunk_le:
  fixes r C n :: nat
  assumes "r < n div C"
  shows "r * C + C \<le> n"
proof -
  have "Suc r * C \<le> (n div C) * C" using assms by (intro mult_le_mono1) simp
  also have "\<dots> \<le> n" by simp
  finally show ?thesis by (simp add: add.commute)
qed

lemma take_drop_snoc_full:
  assumes "r * C + C \<le> length xs"
  shows "take C (drop (r * C) (xs @ ys)) = take C (drop (r * C) xs)"
  using assms by simp

lemma table_loop_state:
  assumes "0 < C"
  shows "table_loop (int C) base files ([], []) =
           (map (\<lambda>r. row_line (take C (drop (r * C) (map (cell base) files))))
              [0..<length files div C],
            drop (length files div C * C) (map (cell base) files))"
proof (induction files rule: rev_induct)
  case Nil
  show ?case by simp
next
  case (snoc f fs)
  define xs where "xs = map (cell base) fs"
  define ys where "ys = map (cell base) (fs @ [f])"
  define n where "n = length fs"
  define q where "q = n div C"
  have ys: "ys = xs @ [cell base f]" by (simp add: ys_def xs_def)
  have len: "length xs = n" by (simp add: xs_def n_def)
  have qn: "q * C \<le> n" by (simp add: q_def)
  have cur_len: "length (drop (q * C) xs) = n mod C"
    by (simp add: len q_def minus_div_mult_eq_mod)
  have full: "take C (drop (r * C) ys) = take C (drop (r * C) xs)"
    if "r < q" for r
    using mult_chunk_le[of r n C] that by (simp add: q_def len ys)
  have rows_same:
    "map (\<lambda>r. row_line (take C (drop (r * C) ys))) [0..<q]
     = map (\<lambda>r. row_line (take C (drop (r * C) xs))) [0..<q]"
  proof (rule map_cong [OF refl])
    fix r assume "r \<in> set [0..<q]"
    then have "r < q" by simp
    then show "row_line (take C (drop (r * C) ys)) = row_line (take C (drop (r * C) xs))"
      by (simp only: full)
  qed
  have rest: "drop (q * C) ys = drop (q * C) xs @ [cell base f]"
    using qn by (simp add: ys len)
  have step: "table_loop (int C) base (fs @ [f]) ([], [])
      = table_loop (int C) base [f]
          (map (\<lambda>r. row_line (take C (drop (r * C) xs))) [0..<q], drop (q * C) xs)"
    by (simp add: table_loop_append snoc.IH xs_def n_def q_def)
  show ?case
  proof (cases "Suc (n mod C) = C")
    case True
    then have q': "Suc n div C = Suc q" and m': "Suc n mod C = 0"
      by (simp_all add: div_Suc mod_Suc q_def)
    have all: "Suc q * C = Suc n"
      using m' q' by (metis add.right_neutral div_mult_mod_eq)
    have last: "take C (drop (q * C) ys) = drop (q * C) xs @ [cell base f]"
      using True cur_len by (simp add: rest)
    have emptied: "drop (Suc q * C) ys = []"
      unfolding all by (simp add: ys len)
    have "table_loop (int C) base (fs @ [f]) ([], [])
        = (map (\<lambda>r. row_line (take C (drop (r * C) xs))) [0..<q]
            @ [row_line (drop (q * C) xs @ [cell base f])], [])"
      using True cur_len by (simp add: step Let_def)
    also have "\<dots> = (map (\<lambda>r. row_line (take C (drop (r * C) ys))) [0..<Suc q],
                     drop (Suc q * C) ys)"
      by (simp only: upt_Suc_append [OF le0] map_append list.map rows_same last emptied)
    finally show ?thesis
      using q' by (simp add: ys_def n_def)
  next
    case False
    then have q': "Suc n div C = q"
      by (simp add: div_Suc mod_Suc q_def)
    have "table_loop (int C) base (fs @ [f]) ([], [])
        = (map (\<lambda>r. row_line (take C (drop (r * C) xs))) [0..<q],
           drop (q * C) xs @ [cell base f])"
      using False cur_len by (simp add: step Let_def)
    also have "\<dots> = (map (\<lambda>r. row_line (take C (drop (r * C) ys))) [0..<q],
                     drop (q * C) ys)"
      by (simp only: rows_same rest)
    finally show ?thesis
      using q' by (simp add: ys_def n_def)
  qed
qed

lemma rows_count:
  fixes n C :: nat
  assumes "0 < C"
  shows "(n + C - 1) div C = (if n mod C = 0 then n div C else Suc (n div C))"
proof -
  define q where "q = n div C"
  define m where "m = n mod C"
  have n: "n = q * C + m" by (simp add: q_def m_def)
  have m: "m < C" using assms by (simp add: m_def)
  show ?thesis
  proof (cases "m = 0")
    case True
    have "n + C - 1 = q * C + (C - 1)" using n True assms by simp
    moreover have "(q * C + (C - 1)) div C = q + (C - 1) div C"
      by (rule div_mult_self3) (use assms in simp)
    moreover have "(C - 1) div C = 0" using assms by simp
    ultimately have "(n + C - 1) div C = q" by simp
    then show ?thesis using True by (simp add: q_def m_def)
  next
    case False
    have "n + C - 1 = Suc q * C + (m - 1)" using n False by simp
    moreover have "(Suc q * C + (m - 1)) div C = Suc q + (m - 1) div C"
      by (rule div_mult_self3) (use assms in simp)
    moreover have "(m - 1) div C = 0" using m by simp
    ultimately have "(n + C - 1) div C = Suc q" by simp
    then show ?thesis using False by (simp add: q_def m_def)
  qed
qed

lemma rows_count_Suc:
  fixes n C :: nat
  assumes "0 < C"
  shows "(n + C - Suc 0) div C = (if n mod C = 0 then n div C else Suc (n div C))"
  using rows_count [OF assms, of n] by simp

lemma rows_cover:
  fixes n C :: nat
  assumes "0 < C"
  shows "n \<le> (n + C - 1) div C * C" and "(n + C - 1) div C * C - n < C"
proof -
  have n: "n = n div C * C + n mod C" by simp
  have m: "n mod C < C" using assms by simp
  show "n \<le> (n + C - 1) div C * C"
  proof (cases "n mod C = 0")
    case True
    then have "n div C * C = n" by (metis add.right_neutral div_mult_mod_eq)
    with True show ?thesis using assms by (simp add: rows_count_Suc)
  next
    case False
    have "n \<le> n div C * C + C" using n m by linarith
    with False show ?thesis using assms by (simp add: rows_count_Suc)
  qed
  show "(n + C - 1) div C * C - n < C"
  proof (cases "n mod C = 0")
    case True
    then have "n div C * C = n" by (metis add.right_neutral div_mult_mod_eq)
    moreover have "(n + C - 1) div C = n div C"
      using True rows_count [OF assms, of n] by simp
    ultimately show ?thesis using assms by simp
  next
    case False
    have R: "(n + C - 1) div C = Suc (n div C)"
      using False rows_count [OF assms, of n] by simp
    have "C + n div C * C - n < C" using n m False by linarith
    then have "Suc (n div C) * C - n < C" by (simp only: mult_Suc)
    then show ?thesis by (simp only: R)
  qed
qed

lemma ceiling_div_nat:
  fixes n C :: nat
  assumes "0 < C"
  shows "nat \<lceil>real n / real C\<rceil> = (n + C - 1) div C"
proof -
  define q where "q = n div C"
  define m where "m = n mod C"
  have n: "n = q * C + m" by (simp add: q_def m_def)
  have m: "m < C" using assms by (simp add: m_def)
  have "real n = real q * real C + real m" by (subst n) simp
  then have r: "real n / real C = real q + real m / real C"
    using assms by (simp add: field_simps)
  show ?thesis
  proof (cases "m = 0")
    case True
    then have "\<lceil>real n / real C\<rceil> = int q" by (simp add: r)
    then show ?thesis using True assms by (simp add: rows_count_Suc q_def m_def)
  next
    case False
    have "0 < real m / real C" using False assms by simp
    moreover have "real m / real C < 1" using m assms by simp
    ultimately have "\<lceil>real n / real C\<rceil> = int q + 1"
      unfolding r by (intro ceiling_unique) simp_all
    then show ?thesis using False assms by (simp add: rows_count_Suc q_def m_def)
  qed
qed

lemma concat_chunks:
  assumes "R * C \<le> length ys"
  shows "concat (map (\<lambda>r. take C (drop (r * C) ys)) [0..<R]) = take (R * C) ys"
  using assms
proof (induction R)
  case 0
  show ?case by simp
next
  case (Suc R)
  then have "R * C \<le> length ys" by simp
  with Suc.IH have "concat (map (\<lambda>r. take C (drop (r * C) ys)) [0..<R]) = take (R * C) ys"
    by simp
  then have "concat (map (\<lambda>r. take C (drop (r * C) ys)) [0..<Suc R])
               = take (R * C) ys @ take C (drop (R * C) ys)" by simp
  also have "\<dots> = take (R * C + C) ys" by (simp add: take_add)
  finally show ?case by (simp add: add.commute)
qed

lemma length_grid: "length (grid C pad cells) = (length cells + C - 1) div C"
  by (simp add: grid_def Let_def)

lemma grid_row_length:
  assumes "0 < C" "row \<in> set (grid C pad cells)"
  shows "length row = C"
proof -
  define R where "R = (length cells + C - 1) div C"
  define padded where "padded = cells @ replicate (R * C - length cells) pad"
  have len: "length padded = R * C"
    using rows_cover(1)[OF assms(1), of "length cells"] by (simp add: padded_def R_def)
  from assms(2) obtain r where r: "r < R" "row = take C (drop (r * C) padded)"
    by (auto simp: grid_def Let_def R_def padded_def)
  have "Suc r * C \<le> R * C" using r(1) by (intro mult_le_mono1) simp
  then have "r * C + C \<le> length padded" by (simp add: len add.commute)
  then show ?thesis by (simp add: r(2))
qed

lemma concat_grid:
  assumes "0 < C"
  shows "concat (grid C pad cells)
           = cells @ replicate (length (grid C pad cells) * C - length cells) pad"
proof -
  define R where "R = (length cells + C - 1) div C"
  define padded where "padded = cells @ replicate (R * C - length cells) pad"
  have len: "length padded = R * C"
    using rows_cover(1)[OF assms, of "length cells"] by (simp add: padded_def R_def)
  have "concat (grid C pad cells) = take (R * C) padded"
    unfolding grid_def Let_def R_def [symmetric] padded_def [symmetric]
    by (rule concat_chunks) (simp add: len)
  also have "\<dots> = padded" by (simp add: len)
  finally show ?thesis by (simp add: padded_def length_grid R_def)
qed

lemma table_rows_grid:
  assumes "0 < C"
  shows "table_rows (int C) base files = map row_line (grid C '' '' (map (cell base) files))"
proof -
  define xs where "xs = map (cell base) files"
  define n where "n = length files"
  define q where "q = n div C"
  define R where "R = (n + C - 1) div C"
  define padded where "padded = xs @ replicate (R * C - n) '' ''"
  have len: "length xs = n" by (simp add: xs_def n_def)
  have qn: "q * C \<le> n" by (simp add: q_def)
  have g: "grid C '' '' xs = map (\<lambda>r. take C (drop (r * C) padded)) [0..<R]"
    by (simp add: grid_def Let_def len R_def padded_def)
  have full: "take C (drop (r * C) padded) = take C (drop (r * C) xs)" if "r < q" for r
    using mult_chunk_le[of r n C] that by (simp add: q_def len padded_def)
  have rows_same:
    "map (\<lambda>r. row_line (take C (drop (r * C) xs))) [0..<q]
     = map (\<lambda>r. row_line (take C (drop (r * C) padded))) [0..<q]"
  proof (rule map_cong [OF refl])
    fix r assume "r \<in> set [0..<q]"
    then have "r < q" by simp
    then show "row_line (take C (drop (r * C) xs)) = row_line (take C (drop (r * C) padded))"
      by (simp only: full)
  qed
  have cur_len: "length (drop (q * C) xs) = n mod C"
    by (simp add: len q_def minus_div_mult_eq_mod)
  have loop: "table_loop (int C) base files ([], [])
      = (map (\<lambda>r. row_line (take C (drop (r * C) xs))) [0..<q], drop (q * C) xs)"
    using table_loop_state[OF assms, of base files] by (simp add: xs_def n_def q_def)
  show ?thesis
  proof (cases "n mod C = 0")
    case True
    then have R: "R = q" using assms by (simp add: R_def q_def rows_count_Suc)
    have "drop (q * C) xs = []" using cur_len True by simp
    then have "table_rows (int C) base files
        = map (\<lambda>r. row_line (take C (drop (r * C) xs))) [0..<q]"
      by (simp add: table_rows_def loop)
    also have "\<dots> = map row_line (grid C '' '' xs)"
      by (simp only: rows_same g R map_map o_def)
    finally show ?thesis by (simp add: xs_def)
  next
    case False
    then have R: "R = Suc q" using assms by (simp add: R_def q_def rows_count_Suc)
    have ne: "drop (q * C) xs \<noteq> []"
    proof
      assume "drop (q * C) xs = []"
      then have "length (drop (q * C) xs) = 0" by simp
      with cur_len False show False by simp
    qed
    have pad: "R * C - n = C - n mod C"
    proof -
      have "q * C + n mod C = n" by (simp add: q_def)
      then show ?thesis unfolding R mult_Suc by linarith
    qed
    have mC: "n mod C \<le> C" using assms by (simp add: less_imp_le)
    have dp: "drop (q * C) padded = drop (q * C) xs @ replicate (C - n mod C) '' ''"
      using qn by (simp add: padded_def len pad)
    have last: "take C (drop (q * C) padded)
        = drop (q * C) xs @ replicate (C - n mod C) '' ''"
      unfolding dp using cur_len mC by simp
    have padrow: "pad_row (int C) (drop (q * C) xs)
        = drop (q * C) xs @ replicate (C - n mod C) '' ''"
      by (simp only: pad_row_eq cur_len nat_int)
    have "table_rows (int C) base files
        = map (\<lambda>r. row_line (take C (drop (r * C) xs))) [0..<q]
          @ [row_line (pad_row (int C) (drop (q * C) xs))]"
      using ne by (simp add: table_rows_def loop)
    also have "\<dots> = map (\<lambda>r. row_line (take C (drop (r * C) padded))) [0..<Suc q]"
      by (simp only: upt_Suc_append [OF le0] map_append list.map rows_same last padrow)
    also have "\<dots> = map row_line (grid C '' '' xs)"
      by (simp only: g R map_map o_def)
    finally show ?thesis by (simp add: xs_def)
  qed
qed

lemma join_spec_row:
  "join '' | '' (c # cs) @ '' |''
     = c @ '' |'' @ concat (map (\<lambda>c. '' '' @ c @ '' |'') cs)"
  by (induction cs arbitrary: c) simp_all

lemma row_line_spec_row:
  assumes "cells \<noteq> []"
  shows "row_line cells = spec_row cells"
proof -
  from assms obtain c cs where cells: "cells = c # cs" by (cases cells) auto
  show ?thesis
    unfolding cells row_line_def spec_row_def
    by (simp only: join_spec_row) simp
qed

lemma cell_spec_cell: "cell base_path p = spec_cell base_path (path_name p)"
  by (simp add: cell_def spec_cell_def Let_def)

lemma join_lines:
  assumes "rows \<noteq> []"
  shows "sep @ join sep rows = concat (map (\<lambda>row. sep @ row) rows)"
proof -
  from assms obtain r rs where rows: "rows = r # rs" by (cases rows) auto
  have "sep @ join sep (r # rs) = concat (map (\<lambda>row. sep @ row) (r # rs))"
    by (induction rs arbitrary: r) simp_all
  then show ?thesis by (simp only: rows)
qed

lemma grid_nonempty:
  assumes "0 < C" "cells \<noteq> []"
  shows "grid C pad cells \<noteq> []"
proof
  assume "grid C pad cells = []"
  then have "length (grid C pad cells) = 0" by simp
  then have "(length cells + C - 1) div C = 0" by (simp only: length_grid)
  with rows_cover(1) [OF assms(1), of "length cells"] have "length cells \<le> 0" by simp
  with assms(2) show False by simp
qed

lemma generate_table_rows:
  assumes "image_files \<noteq> []" "0 < C" "columns g = int C"
  shows "generate_table g image_files base_path =
           row_line (replicate C []) @ [CHR ''\<newline>''] @ row_line (replicate C '':---:'')
           @ [CHR ''\<newline>'']
           @ join [CHR ''\<newline>''] (map row_line (grid C '' '' (map (cell base_path) image_files)))"
  using assms by (simp add: generate_table_def Let_def table_rows_grid)

lemma upt2: "[0..<2] = [0, Suc 0]"
  by (simp add: upt_rec)

lemma replicate2: "replicate 2 x = [x, x]"
  by (simp add: numeral_2_eq_2)

text \<open>
  C4. For a non-empty list of \<open>L\<close> images and \<open>C \<ge> 1\<close> columns, the data rows of the table
  are the rows of the grid of the cells: the cells are packed row-major in the order of the
  input into exactly \<open>\<lceil>L / C\<rceil>\<close> rows, every row has exactly \<open>C\<close> cells, and the rows read one
  after the other are the cells followed by fewer than \<open>C\<close> padding cells, so that padding
  only fills the right end of the last row and moves no cell.
\<close>

theorem grid_packing:
  assumes "1 \<le> columns g" and "image_files \<noteq> []"
    and "C = nat (columns g)"
    and "cells = map (cell base_path) image_files"
    and "rows = grid C '' '' cells"
  shows "table_rows (columns g) base_path image_files = map row_line rows
     \<and> generate_table g image_files base_path =
           row_line (replicate C []) @ [CHR ''\<newline>''] @ row_line (replicate C '':---:'')
           @ [CHR ''\<newline>''] @ join [CHR ''\<newline>''] (map row_line rows)
     \<and> length rows = nat \<lceil>real (length image_files) / real C\<rceil>
     \<and> (\<forall>row \<in> set rows. length row = C)
     \<and> concat rows = cells @ replicate (length rows * C - length image_files) '' ''
     \<and> length rows * C - length image_files < C"
proof -
  have C: "0 < C" and cols: "columns g = int C" using assms(1,3) by simp_all
  have 1: "table_rows (columns g) base_path image_files = map row_line rows"
    unfolding cols assms(4,5) by (rule table_rows_grid [OF C])
  have 2: "generate_table g image_files base_path =
           row_line (replicate C []) @ [CHR ''\<newline>''] @ row_line (replicate C '':---:'')
           @ [CHR ''\<newline>''] @ join [CHR ''\<newline>''] (map row_line rows)"
    unfolding assms(4,5) by (rule generate_table_rows [OF assms(2) C cols])
  have len: "length rows = (length image_files + C - 1) div C"
    by (simp add: assms(4,5) length_grid)
  have 3: "length rows = nat \<lceil>real (length image_files) / real C\<rceil>"
    by (simp only: len ceiling_div_nat [OF C])
  have 4: "\<forall>row \<in> set rows. length row = C"
  proof
    fix row assume "row \<in> set rows"
    then show "length row = C" unfolding assms(5) by (rule grid_row_length [OF C])
  qed
  have 5: "concat rows = cells @ replicate (length rows * C - length image_files) '' ''"
    using concat_grid [OF C, of "'' ''" cells] by (simp add: assms(4,5))
  have 6: "length rows * C - length image_files < C"
    unfolding len by (rule rows_cover(2) [OF C])
  show ?thesis
    by (rule conjI [OF 1 conjI [OF 2 conjI [OF 3 conjI [OF 4 conjI [OF 5 6]]]]])
qed

theorem grid_packing_witness:
  "1 \<le> columns example_generator \<and> nature_images \<noteq> []
   \<and> table_rows (columns example_generator) ''/wallpapers/nature'' nature_images =
       [''| [![preview](/wallpapers/nature/a.jpg)](/wallpapers/nature/a.jpg) | [![preview](/wallpapers/nature/b.png)](/wallpapers/nature/b.png) |'',
        ''| [![preview](/wallpapers/nature/c.JPG)](/wallpapers/nature/c.JPG) |   |'']
   \<and> length (grid 2 '' '' (map (cell ''/wallpapers/nature'') nature_images)) = 2
   \<and> concat (grid 2 '' '' (map (cell ''/wallpapers/nature'') nature_images))
       = map (cell ''/wallpapers/nature'') nature_images @ ['' '']"
  using grid_packing [of example_generator nature_images 2
      "map (cell ''/wallpapers/nature'') nature_images" "''/wallpapers/nature''"
      "grid 2 '' '' (map (cell ''/wallpapers/nature'') nature_images)"]
  by (simp add: example_generator_def example_config_def init_def nature_images_def
      nature_dir_def path_child_def path_name_def cell_def row_line_def grid_def Let_def upt2)

text \<open>
  C5. For a non-empty list of images and \<open>C \<ge> 1\<close> columns, the table is the hidden header row
  of \<open>C\<close> empty cells, the separator row of \<open>C\<close> cells \<^verbatim>\<open>:---:\<close>, and one line for each row
  of the grid, where the cell of the image named \<open>N\<close> under the prefix \<open>P\<close> is exactly
  \<^verbatim>\<open>[![preview](P/N)](P/N)\<close> and a row is written with pipes and a single space on each
  side of every cell.
\<close>

theorem table_format:
  assumes "1 \<le> columns g" and "image_files \<noteq> []" and "C = nat (columns g)"
  shows "generate_table g image_files base_path =
           spec_row (replicate C []) @ [CHR ''\<newline>''] @ spec_row (replicate C '':---:'')
           @ concat (map (\<lambda>row. [CHR ''\<newline>''] @ spec_row row)
               (grid C '' '' (map (\<lambda>p. spec_cell base_path (path_name p)) image_files)))"
proof -
  have C: "0 < C" and cols: "columns g = int C" using assms(1,3) by simp_all
  define rows where "rows = grid C '' '' (map (cell base_path) image_files)"
  have cells: "map (cell base_path) image_files
                 = map (\<lambda>p. spec_cell base_path (path_name p)) image_files"
    by (simp add: cell_spec_cell)
  have ne: "rows \<noteq> []"
    unfolding rows_def using C assms(2) by (intro grid_nonempty) simp_all
  have each: "row_line row = spec_row row" if "row \<in> set rows" for row
  proof -
    have "length row = C" using that grid_row_length [OF C] by (simp add: rows_def)
    with C have "row \<noteq> []" by auto
    then show ?thesis by (rule row_line_spec_row)
  qed
  have rl: "map row_line rows = map spec_row rows"
    by (rule map_cong [OF refl]) (rule each)
  have ne': "map spec_row rows \<noteq> []" using ne by simp
  have lines: "[CHR ''\<newline>''] @ join [CHR ''\<newline>''] (map spec_row rows)
                 = concat (map (\<lambda>row. [CHR ''\<newline>''] @ spec_row row) rows)"
    by (simp only: join_lines [OF ne'] map_map o_def)
  have hdr: "row_line (replicate C []) = spec_row (replicate C [])"
    "row_line (replicate C '':---:'') = spec_row (replicate C '':---:'')"
    using C by (simp_all add: row_line_spec_row)
  have "generate_table g image_files base_path =
          spec_row (replicate C []) @ [CHR ''\<newline>''] @ spec_row (replicate C '':---:'')
          @ ([CHR ''\<newline>''] @ join [CHR ''\<newline>''] (map spec_row rows))"
    by (simp only: generate_table_rows [OF assms(2) C cols] rows_def [symmetric] rl hdr)
  then have "generate_table g image_files base_path =
          spec_row (replicate C []) @ [CHR ''\<newline>''] @ spec_row (replicate C '':---:'')
          @ concat (map (\<lambda>row. [CHR ''\<newline>''] @ spec_row row) rows)"
    by (simp only: lines)
  then show ?thesis
    by (simp only: rows_def cells)
qed

theorem table_format_witness:
  "1 \<le> columns example_generator \<and> nature_images \<noteq> []
   \<and> generate_table example_generator nature_images ''/wallpapers/nature'' =
       ''|  |  |'' @ [CHR ''\<newline>''] @ ''| :---: | :---: |'' @ [CHR ''\<newline>'']
       @ ''| [![preview](/wallpapers/nature/a.jpg)](/wallpapers/nature/a.jpg) | [![preview](/wallpapers/nature/b.png)](/wallpapers/nature/b.png) |''
       @ [CHR ''\<newline>'']
       @ ''| [![preview](/wallpapers/nature/c.JPG)](/wallpapers/nature/c.JPG) |   |''"
  using table_format [of example_generator nature_images 2 "''/wallpapers/nature''"]
  by (simp add: example_generator_def example_config_def init_def nature_images_def
      nature_dir_def path_child_def path_name_def spec_cell_def spec_row_def grid_def Let_def upt2 replicate2)

section \<open>Processing a directory\<close>

lemma read_text_File: "read_text fs p = Inr doc \<longleftrightarrow> map_of fs p = Some (File doc)"
  by (auto simp: read_text_def split: option.splits node.splits)



lemma process_directory_found:
  assumes rd: "read_text fs (path_child d README_NAME) = Inr doc"
    and i: "first_occurrence (opening_marker g) doc i"
    and j: "first_occurrence (closing_marker g) doc j"
  shows "process_directory g fs d =
     (case find_image_files g fs d of
        Inl e \<Rightarrow> Inl e
      | Inr image_files \<Rightarrow>
          (case relative_to d (wallpapers_dir g) of
             Inl e \<Rightarrow> Inl e
           | Inr relative_path \<Rightarrow>
               Inr (AList.update (path_child d README_NAME)
                      (File (take i doc
                             @ build_generated_block g
                                 (generate_table g image_files
                                    (''/'' @ path_name (wallpapers_dir g) @ ''/''
                                     @ path_str relative_path))
                             @ drop (j + length (closing_marker g)) doc))
                      fs)))"
proof -
  from rd have m: "map_of fs (path_child d README_NAME) = Some (File doc)"
    by (simp only: read_text_File)
  then have ex: "exists fs (path_child d README_NAME)"
    by (simp add: exists_def)
  have w: "write_text fs (path_child d README_NAME) new_content
             = Inr (AList.update (path_child d README_NAME) (File new_content) fs)"
    for new_content
    using m by (simp add: write_text_def)
  show ?thesis
    using ex
    by (simp add: process_directory_def Let_def find_readme_with_markers_def rd
        locate_found [OF i j] w split: sum.splits)
qed

lemma nature_run:
  "process_directory example_generator nature_fs nature_dir = Inr nature_fs_once"
  by (simp add: process_directory_def Let_def find_readme_with_markers_def read_text_def
      write_text_def exists_def locate_def slice_def slice_from_def clamp_index_def
      relative_to_def path_str_def build_generated_block_def generate_table_def
      table_rows_def cell_def row_line_def
      find_image_files_def iterdir_def nature_fs_def nature_dir_def
      path_child_def is_file_def init_def example_config_def example_generator_def
      lower_def lower_char_def README_NAME_def
      path_suffix_def path_name_def nature_fs_once_def nature_document_once_def replicate2)

lemmas run_defs =
  process_directory_def Let_def find_readme_with_markers_def read_text_def
  write_text_def exists_def locate_def slice_def slice_from_def clamp_index_def
  relative_to_def path_str_def build_generated_block_def generate_table_def
  table_rows_def cell_def row_line_def find_image_files_def iterdir_def nature_dir_def
  path_child_def is_file_def init_def example_config_def example_generator_def
  lower_def lower_char_def README_NAME_def path_suffix_def path_name_def replicate2



lemma prefix_within:
  "length s \<le> length xs \<Longrightarrow> prefix s (xs @ ys) \<longleftrightarrow> prefix s xs"
  by (auto simp: prefix_append)

lemma first_occurrence_same_prefix:
  assumes "first_occurrence s doc i"
  shows "first_occurrence s (take i doc @ s @ rest) i"
proof -
  from assms have occ: "occurs_at s doc i" and minimal: "\<forall>k<i. \<not> occurs_at s doc k"
    by (simp_all add: first_occurrence_def)
  from occ have le: "i \<le> length doc" and pre: "prefix s (drop i doc)"
    by (simp_all add: occurs_at_def)
  from pre obtain rest0 where r0: "drop i doc = s @ rest0" by (auto simp: prefix_def)
  have doc: "doc = take i doc @ s @ rest0"
    using r0 append_take_drop_id [of i doc] by simp
  have len: "length (take i doc) = i" using le by simp
  have here: "occurs_at s (take i doc @ s @ rest) i"
    using len by (simp add: occurs_at_def)
  have before: "\<not> occurs_at s (take i doc @ s @ rest) k" if k: "k < i" for k
  proof
    assume o: "occurs_at s (take i doc @ s @ rest) k"
    define A where "A = drop k (take i doc)"
    have A: "A \<noteq> []" using k le by (simp add: A_def)
    have d1: "drop k (take i doc @ s @ rest) = (A @ s) @ rest"
      using k len by (simp add: A_def)
    have d0: "drop k doc = (A @ s) @ rest0"
    proof -
      have "drop k doc = drop k (take i doc @ s @ rest0)" using doc by simp
      also have "\<dots> = (A @ s) @ rest0" using k len by (simp add: A_def)
      finally show ?thesis .
    qed
    have ls: "length s \<le> length (A @ s)" by simp
    from o have "prefix s (drop k (take i doc @ s @ rest))"
      unfolding occurs_at_def by (rule conjunct2)
    then have "prefix s ((A @ s) @ rest)" by (simp only: d1)
    then have "prefix s (A @ s)" by (simp only: prefix_within [OF ls])
    then have "prefix s ((A @ s) @ rest0)" by (simp only: prefix_within [OF ls])
    then have "prefix s (drop k doc)" by (simp only: d0)
    moreover have "k \<le> length doc" using k le by simp
    ultimately have "occurs_at s doc k" unfolding occurs_at_def by (rule conjI [rotated])
    with minimal k show False by simp
  qed
  from here before show ?thesis by (simp add: first_occurrence_def)
qed

lemma build_generated_block_ends:
  "\<exists>mid. build_generated_block g table = opening_marker g @ mid @ closing_marker g"
proof (cases "header_text g")
  case None
  show ?thesis
  proof (cases "footer_text g")
    case None
    with \<open>header_text g = None\<close> show ?thesis
      by (simp add: build_generated_block_def)
  next
    case (Some f)
    with \<open>header_text g = None\<close> show ?thesis
      by (simp add: build_generated_block_def)
  qed
next
  case (Some h)
  show ?thesis
  proof (cases "footer_text g")
    case None
    with \<open>header_text g = Some h\<close> show ?thesis
      by (simp add: build_generated_block_def)
  next
    case (Some f)
    with \<open>header_text g = Some h\<close> show ?thesis
      by (simp add: build_generated_block_def)
  qed
qed

lemma is_file_update:
  assumes "map_of fs p = Some (File old)"
  shows "is_file (AList.update p (File new) fs) q = is_file fs q"
  using assms by (simp add: is_file_def update_conv')

lemma iterdir_update:
  assumes "map_of fs p = Some (File old)"
  shows "iterdir (AList.update p (File new) fs) d = iterdir fs d"
proof -
  from assms have "p \<in> set (map fst fs)"
    by (metis map_of_eq_None_iff option.distinct(1) set_map)
  then have keys: "map fst (AList.update p (File new) fs) = map fst fs"
    by (simp add: update_keys)
  show ?thesis
    using assms by (simp add: iterdir_def update_conv' keys split: option.splits node.splits)
qed

lemma find_image_files_update:
  assumes "map_of fs p = Some (File old)"
  shows "find_image_files g (AList.update p (File new) fs) d = find_image_files g fs d"
  by (simp add: find_image_files_def iterdir_update [OF assms] is_file_update [OF assms]
      split: sum.splits)

lemma update_same_iff:
  assumes "map_of fs p = Some v0"
  shows "AList.update p v fs = fs \<longleftrightarrow> v = v0"
proof
  assume "AList.update p v fs = fs"
  then have "map_of (AList.update p v fs) p = map_of fs p" by simp
  with assms show "v = v0" by (simp add: update_conv')
next
  assume "v = v0"
  with assms show "AList.update p v fs = fs" by (simp add: update_triv)
qed

lemma drop_eq_drop_iff:
  assumes "a \<le> length xs" "b \<le> length xs"
  shows "drop a xs = drop b xs \<longleftrightarrow> a = b"
proof
  assume "drop a xs = drop b xs"
  then have "length (drop a xs) = length (drop b xs)" by (rule arg_cong)
  with assms show "a = b" by simp
qed simp

text \<open>
  C7 (as amended). Let a first run rewrite the document \<open>doc\<close> into \<open>doc1\<close>. Then \<open>doc1\<close> is
  the text before the opening marker, the generated block, which ends with the closing
  marker, and the text after the old closing marker; and a second run, on the same files,
  leaves the file system as the first run left it exactly when the first occurrence of
  the closing marker in \<open>doc1\<close> is the one that ends the generated block.
\<close>

theorem second_run_noop_iff:
  assumes rd: "read_text fs (path_child d README_NAME) = Inr doc"
    and i: "first_occurrence (opening_marker g) doc i"
    and j: "first_occurrence (closing_marker g) doc j"
    and run: "process_directory g fs d = Inr fs1"
    and rd1: "read_text fs1 (path_child d README_NAME) = Inr doc1"
  shows "\<exists>block. doc1 = take i doc @ block @ drop (j + length (closing_marker g)) doc
           \<and> suffix (closing_marker g) block
           \<and> (process_directory g fs1 d = Inr fs1 \<longleftrightarrow>
                first_occurrence (closing_marker g) doc1
                  (i + length block - length (closing_marker g)))"
proof -
  let ?readme = "path_child d README_NAME"
  let ?close = "closing_marker g"
  define S where "S = drop (j + length ?close) doc"
  define P where "P = take i doc"
  note found = process_directory_found [OF rd i j]
  from run found obtain image_files where im: "find_image_files g fs d = Inr image_files"
    by (cases "find_image_files g fs d") simp_all
  from run found im obtain relative_path
    where rel: "relative_to d (wallpapers_dir g) = Inr relative_path"
    by (cases "relative_to d (wallpapers_dir g)") simp_all
  define block where "block = build_generated_block g
      (generate_table g image_files
         (''/'' @ path_name (wallpapers_dir g) @ ''/'' @ path_str relative_path))"
  from run found im rel
  have fs1: "fs1 = AList.update ?readme (File (P @ block @ S)) fs"
    by (simp add: block_def S_def P_def)
  from rd have m: "map_of fs ?readme = Some (File doc)"
    by (simp only: read_text_File)
  have m1: "map_of fs1 ?readme = Some (File (P @ block @ S))"
    by (simp add: fs1 update_conv')
  with rd1 have doc1: "doc1 = P @ block @ S"
    by (simp add: read_text_File)
  obtain mid where blk: "block = opening_marker g @ mid @ ?close"
    using build_generated_block_ends [of g] unfolding block_def by blast
  have suf: "suffix ?close block"
    unfolding blk by (simp add: suffix_def)
  have lenP: "length P = i"
    using first_occurrence_bound [OF i] by (simp add: P_def)
  have i1: "first_occurrence (opening_marker g) doc1 i"
    using first_occurrence_same_prefix [OF i, of "mid @ ?close @ S"]
    by (simp add: doc1 blk P_def)
  have "sublist ?close doc1"
    unfolding doc1 blk by (simp add: sublist_def) (metis append.assoc)
  then obtain j1 where j1: "first_occurrence ?close doc1 j1"
    by (metis find_str_cases)
  have im1: "find_image_files g fs1 d = Inr image_files"
    unfolding fs1 by (simp only: find_image_files_update [OF m] im)
  have run2: "process_directory g fs1 d =
      Inr (AList.update ?readme
             (File (take i doc1 @ block @ drop (j1 + length ?close) doc1)) fs1)"
    using process_directory_found [OF rd1 i1 j1]
    by (simp add: im1 rel block_def)
  have tk: "take i doc1 = P"
    using lenP by (simp add: doc1)
  have S1: "S = drop (i + length block) doc1"
    using lenP by (simp add: doc1)
  have b1: "j1 + length ?close \<le> length doc1"
    by (rule first_occurrence_bound [OF j1])
  have b2: "i + length block \<le> length doc1"
    using lenP by (simp add: doc1)
  have lc: "length ?close \<le> length block"
    by (simp add: blk)
  have "process_directory g fs1 d = Inr fs1
          \<longleftrightarrow> take i doc1 @ block @ drop (j1 + length ?close) doc1 = doc1"
    using m1 by (simp add: run2 update_same_iff doc1 [symmetric])
  also have "\<dots> \<longleftrightarrow> drop (j1 + length ?close) doc1 = drop (i + length block) doc1"
    unfolding tk S1 [symmetric] by (simp add: doc1)
  also have "\<dots> \<longleftrightarrow> j1 + length ?close = i + length block"
    by (rule drop_eq_drop_iff [OF b1 b2])
  also have "\<dots> \<longleftrightarrow> j1 = i + length block - length ?close"
    using lc by linarith
  also have "\<dots> \<longleftrightarrow> first_occurrence ?close doc1 (i + length block - length ?close)"
    using j1 first_occurrence_unique by blast
  finally have "process_directory g fs1 d = Inr fs1 \<longleftrightarrow>
      first_occurrence ?close doc1 (i + length block - length ?close)" .
  with doc1 suf show ?thesis
    unfolding P_def S_def by blast
qed

theorem second_run_noop_iff_witness:
  "read_text nature_fs (path_child nature_dir README_NAME) = Inr ''intro [[old]] outro''
   \<and> first_occurrence (opening_marker example_generator) ''intro [[old]] outro'' 6
   \<and> first_occurrence (closing_marker example_generator) ''intro [[old]] outro'' 11
   \<and> process_directory example_generator nature_fs nature_dir = Inr nature_fs_once
   \<and> read_text nature_fs_once (path_child nature_dir README_NAME) = Inr nature_document_once
   \<and> process_directory example_generator nature_fs_once nature_dir = Inr nature_fs_once"
proof -
  have c1: "read_text nature_fs (path_child nature_dir README_NAME)
              = Inr ''intro [[old]] outro''"
    by (simp add: read_text_def nature_fs_def nature_dir_def path_child_def README_NAME_def)
  have c2: "first_occurrence (opening_marker example_generator) ''intro [[old]] outro'' 6"
    by (simp add: find_str_first [symmetric] example_generator_def example_config_def
        init_def)
  have c3: "first_occurrence (closing_marker example_generator) ''intro [[old]] outro'' 11"
    by (simp add: find_str_first [symmetric] example_generator_def example_config_def
        init_def)
  have c4: "process_directory example_generator nature_fs nature_dir = Inr nature_fs_once"
    by (rule nature_run)
  have c5: "read_text nature_fs_once (path_child nature_dir README_NAME)
              = Inr nature_document_once"
    by (simp add: read_text_def nature_fs_once_def nature_dir_def path_child_def
        README_NAME_def)
  from second_run_noop_iff [OF c1 c2 c3 c4 c5]
  obtain block where
    doc1: "nature_document_once = take 6 ''intro [[old]] outro'' @ block
             @ drop (11 + length (closing_marker example_generator)) ''intro [[old]] outro''"
    and iff: "process_directory example_generator nature_fs_once nature_dir = Inr nature_fs_once
       \<longleftrightarrow> first_occurrence (closing_marker example_generator) nature_document_once
             (6 + length block - length (closing_marker example_generator))"
    by blast
  from doc1 have "length nature_document_once
      = length (take 6 ''intro [[old]] outro'' @ block
             @ drop (11 + length (closing_marker example_generator)) ''intro [[old]] outro'')"
    by (rule arg_cong)
  then have len: "length block = length nature_document_once - 12"
    by (simp add: example_generator_def example_config_def init_def)
  have "first_occurrence (closing_marker example_generator) nature_document_once
             (6 + length block - length (closing_marker example_generator))"
    unfolding len
    by (simp add: find_str_first [symmetric] example_generator_def example_config_def
        init_def nature_document_once_def)
  with iff have c6: "process_directory example_generator nature_fs_once nature_dir
      = Inr nature_fs_once"
    by (simp only: simp_thms)
  show ?thesis
    by (intro conjI c1 c2 c3 c4 c5 c6)
qed

text \<open>
  Idempotence as first claimed, for every document, fails on a document that mentions the
  closing marker before its block: every run inserts one more block.
\<close>

theorem second_run_counterexample:
  "process_directory example_generator stray_fs nature_dir = Inr stray_fs_once
   \<and> process_directory example_generator stray_fs_once nature_dir = Inr stray_fs_twice
   \<and> read_text stray_fs (path_child nature_dir README_NAME) = Inr '']] [[old]]''
   \<and> read_text stray_fs_once (path_child nature_dir README_NAME)
       = Inr ('']] '' @ empty_block @ '' [[old]]'')
   \<and> read_text stray_fs_twice (path_child nature_dir README_NAME)
       = Inr ('']] '' @ empty_block @ '' '' @ empty_block @ '' [[old]]'')
   \<and> '']] '' @ empty_block @ '' [[old]]''
       \<noteq> '']] '' @ empty_block @ '' '' @ empty_block @ '' [[old]]''"
  by (simp add: run_defs stray_fs_def stray_fs_once_def stray_fs_twice_def empty_block_def
      placeholder_def)

end
